theory Spec2Isabelle
  imports Complex_Main
begin

section \<open>Line-coding waveforms and their spectra (LineCodingPrefinal/app.py)\<close>

text \<open>
  The development embeds the four line-coding encoders, the three spectral operations and
  the two request handlers of \<^verbatim>\<open>app.py\<close>. Bit values are Python integers
  (\<^typ>\<open>int\<close>), sample values are NumPy floats. Float arithmetic is read as exact
  arithmetic over \<^typ>\<open>real\<close>; every exception a call can raise is a value of
  \<open>py_error\<close>.
\<close>

subsection \<open>Errors\<close>

datatype py_error = ValueError | ZeroDivisionError | IndexError

text \<open>
  What a handler answers when it does not answer with a result: status 400 with the
  message of the emptiness check, or status 500 with the exception that the
  \<^verbatim>\<open>except Exception\<close> clause caught.
\<close>

datatype http_error = Http400 string | Http500 py_error

subsection \<open>NumPy array primitives used by the encoders\<close>

text \<open>\<^verbatim>\<open>np.repeat(a, k)\<close>: every element \<open>k\<close> times; a negative count raises.\<close>

definition np_repeat :: "'a list \<Rightarrow> int \<Rightarrow> py_error + 'a list" where
  "np_repeat a k =
     (if k < 0 then Inl ValueError else Inr (concat (map (replicate (nat k)) a)))"

text \<open>\<^verbatim>\<open>np.zeros(n)\<close>: a negative dimension raises.\<close>

definition np_zeros :: "int \<Rightarrow> py_error + real list" where
  "np_zeros n = (if n < 0 then Inl ValueError else Inr (replicate (nat n) 0))"

text \<open>
  \<^verbatim>\<open>a[lo:hi] = v\<close> for indices that are not negative: the positions
  \<open>lo \<le> k < hi\<close> that exist are overwritten, the array keeps its length.
\<close>

definition slice_fill :: "real list \<Rightarrow> nat \<Rightarrow> nat \<Rightarrow> real \<Rightarrow> real list" where
  "slice_fill a lo hi v = map (\<lambda>(k, x). if lo \<le> k \<and> k < hi then v else x) (enumerate 0 a)"

subsection \<open>The encoders\<close>

definition encode_nrz_l :: "int list \<Rightarrow> int \<Rightarrow> py_error + int list" where
  "encode_nrz_l data samples_per_bit =
     (case np_repeat data samples_per_bit of
        Inl e \<Rightarrow> Inl e
      | Inr data_upsampled \<Rightarrow> Inr (map (\<lambda>x. if x = 1 then 1 else - 1) data_upsampled))"

text \<open>The loop body of \<^verbatim>\<open>encode_rz\<close> at index \<open>i\<close>, then the rest of the loop.\<close>

fun rz_loop :: "nat \<Rightarrow> nat \<Rightarrow> int list \<Rightarrow> real list \<Rightarrow> real list" where
  "rz_loop S i [] rz_signal = rz_signal"
| "rz_loop S i (b # rest) rz_signal =
     (let half_bit_samples = S div 2;
          start_index = i * S;
          mid_index = start_index + half_bit_samples
      in rz_loop S (i + 1) rest
           (if b = 1 then slice_fill rz_signal start_index mid_index 1
            else slice_fill rz_signal start_index mid_index (- 1)))"

definition encode_rz :: "int list \<Rightarrow> int \<Rightarrow> py_error + real list" where
  "encode_rz data samples_per_bit =
     (case np_zeros (int (length data) * samples_per_bit) of
        Inl e \<Rightarrow> Inl e
      | Inr zeros \<Rightarrow> Inr (rz_loop (nat samples_per_bit) 0 data zeros))"

fun manchester_loop :: "nat \<Rightarrow> nat \<Rightarrow> int list \<Rightarrow> real list \<Rightarrow> real list" where
  "manchester_loop S i [] manchester_signal = manchester_signal"
| "manchester_loop S i (b # rest) manchester_signal =
     (let half_bit_samples = S div 2;
          start_index = i * S;
          mid_index = start_index + half_bit_samples;
          end_index = start_index + S
      in manchester_loop S (i + 1) rest
           (if b = 1
            then slice_fill (slice_fill manchester_signal start_index mid_index (- 1))
                   mid_index end_index 1
            else slice_fill (slice_fill manchester_signal start_index mid_index 1)
                   mid_index end_index (- 1)))"

definition encode_manchester :: "int list \<Rightarrow> int \<Rightarrow> py_error + real list" where
  "encode_manchester data samples_per_bit =
     (case np_zeros (int (length data) * samples_per_bit) of
        Inl e \<Rightarrow> Inl e
      | Inr zeros \<Rightarrow> Inr (manchester_loop (nat samples_per_bit) 0 data zeros))"

text \<open>
  The AMI loop threads the array and \<^verbatim>\<open>last_polarity\<close>, a local of the call that
  starts at \<open>1\<close>.
\<close>

fun ami_loop :: "nat \<Rightarrow> nat \<Rightarrow> int list \<Rightarrow> real list \<times> int \<Rightarrow> real list \<times> int" where
  "ami_loop S i [] st = st"
| "ami_loop S i (b # rest) (ami_signal, last_polarity) =
     (if b = 1
      then (let start_index = i * S;
                end_index = start_index + S
            in ami_loop S (i + 1) rest
                 (slice_fill ami_signal start_index end_index (real_of_int last_polarity),
                  last_polarity * (- 1)))
      else ami_loop S (i + 1) rest (ami_signal, last_polarity))"

definition encode_ami :: "int list \<Rightarrow> int \<Rightarrow> py_error + real list" where
  "encode_ami data samples_per_bit =
     (case np_zeros (int (length data) * samples_per_bit) of
        Inl e \<Rightarrow> Inl e
      | Inr zeros \<Rightarrow> Inr (fst (ami_loop (nat samples_per_bit) 0 data (zeros, 1))))"

subsection \<open>Sequencing calls that may raise\<close>

definition bind_err :: "'e + 'a \<Rightarrow> ('a \<Rightarrow> 'e + 'b) \<Rightarrow> 'e + 'b" where
  "bind_err m f = (case m of Inl e \<Rightarrow> Inl e | Inr x \<Rightarrow> f x)"

text \<open>The \<^verbatim>\<open>except Exception\<close> clause of a handler: any exception becomes status 500.\<close>

definition catch_500 :: "py_error + 'a \<Rightarrow> http_error + 'a" where
  "catch_500 m = (case m of Inl e \<Rightarrow> Inl (Http500 e) | Inr x \<Rightarrow> Inr x)"

subsection \<open>The encoding handler\<close>

text \<open>
  \<^verbatim>\<open>np.linspace(start, stop, num, endpoint=False)\<close>: \<open>num\<close> points with step
  \<open>(stop - start) / num\<close>; a negative \<open>num\<close> raises.
\<close>

definition np_linspace :: "real \<Rightarrow> real \<Rightarrow> int \<Rightarrow> py_error + real list" where
  "np_linspace start stop num =
     (if num < 0 then Inl ValueError
      else Inr (map (\<lambda>k. start + real k * ((stop - start) / real_of_int num)) [0..<nat num]))"

record encode_response =
  time :: "real list"
  original :: "int list"
  nrz_l :: "int list"
  rz :: "real list"
  manchester :: "real list"
  ami :: "real list"

definition encode :: "int list \<Rightarrow> int \<Rightarrow> http_error + encode_response" where
  "encode bits samples_per_bit =
     (if bits = [] then Inl (Http400 ''No bits provided'')
      else catch_500
        (let T = real (length bits) / 1 in
         bind_err (np_linspace 0 T (int (length bits) * samples_per_bit)) (\<lambda>time_array.
         bind_err (np_repeat bits samples_per_bit) (\<lambda>data_upsampled.
         bind_err (encode_nrz_l bits samples_per_bit) (\<lambda>nrz_l_signal.
         bind_err (encode_rz bits samples_per_bit) (\<lambda>rz_signal.
         bind_err (encode_manchester bits samples_per_bit) (\<lambda>manchester_signal.
         bind_err (encode_ami bits samples_per_bit) (\<lambda>ami_signal.
         Inr \<lparr>time = time_array, original = data_upsampled, nrz_l = nrz_l_signal,
              rz = rz_signal, manchester = manchester_signal, ami = ami_signal\<rparr>))))))))"

subsection \<open>NumPy primitives used by the spectral operations\<close>

text \<open>
  \<^verbatim>\<open>np.fft.fft\<close>: the discrete Fourier transform, bin \<open>k\<close> of which is
  \<open>\<Sum>\<^sub>m x\<^sub>m exp (- 2 \<pi> i m k / n)\<close>; an empty input raises.
\<close>

definition dft :: "real list \<Rightarrow> nat \<Rightarrow> complex" where
  "dft x k =
     (\<Sum>m\<leftarrow>[0..<length x]. of_real (x ! m) * cis (- (2 * pi * real m * real k / real (length x))))"

definition np_fft :: "real list \<Rightarrow> py_error + complex list" where
  "np_fft x = (if x = [] then Inl ValueError else Inr (map (dft x) [0..<length x]))"

text \<open>Division of Python floats: a zero divisor raises.\<close>

definition py_div :: "real \<Rightarrow> real \<Rightarrow> py_error + real" where
  "py_div a b = (if b = 0 then Inl ZeroDivisionError else Inr (a / b))"

text \<open>
  \<^verbatim>\<open>np.fft.fftfreq(n, d)\<close>: the bin numbers \<open>0, \<dots>, (n - 1) div 2\<close> followed by
  \<open>- (n div 2), \<dots>, - 1\<close>, each times \<open>1 / (n d)\<close>.
\<close>

definition np_fftfreq :: "nat \<Rightarrow> real \<Rightarrow> real list" where
  "np_fftfreq n d =
     (let val = 1 / (real n * d);
          N = (n - 1) div 2 + 1
      in map (\<lambda>k. real_of_int k * val)
           (map int [0..<N] @ map (\<lambda>k. int k - int (n div 2)) [0..<n div 2]))"

text \<open>Indexing by a Boolean mask: \<^verbatim>\<open>a[mask]\<close>.\<close>

definition select_mask :: "bool list \<Rightarrow> 'a list \<Rightarrow> 'a list" where
  "select_mask msk a = map snd (filter fst (zip msk a))"

text \<open>\<^verbatim>\<open>np.max\<close>: the maximum of an empty array raises.\<close>

fun np_max :: "real list \<Rightarrow> py_error + real" where
  "np_max [] = Inl ValueError"
| "np_max (x # xs) = Inr (fold max xs x)"

fun cumsum_from :: "real \<Rightarrow> real list \<Rightarrow> real list" where
  "cumsum_from acc [] = []"
| "cumsum_from acc (x # xs) = (acc + x) # cumsum_from (acc + x) xs"

definition np_cumsum :: "real list \<Rightarrow> real list" where
  "np_cumsum a = cumsum_from 0 a"

text \<open>\<^verbatim>\<open>np.where(mask)[0]\<close>: the indices at which the mask holds, ascending.\<close>

definition np_where :: "bool list \<Rightarrow> nat list" where
  "np_where msk = filter (\<lambda>i. msk ! i) [0..<length msk]"

text \<open>\<^verbatim>\<open>np.argmax\<close>: the first index of the maximum; an empty array raises.\<close>

fun argmax_loop :: "nat \<Rightarrow> real \<Rightarrow> nat \<Rightarrow> real list \<Rightarrow> nat" where
  "argmax_loop best_i best i [] = best_i"
| "argmax_loop best_i best i (x # xs) =
     (if best < x then argmax_loop i x (i + 1) xs else argmax_loop best_i best (i + 1) xs)"

fun np_argmax :: "real list \<Rightarrow> py_error + nat" where
  "np_argmax [] = Inl ValueError"
| "np_argmax (x # xs) = Inr (argmax_loop 0 x 1 xs)"

text \<open>Indexing \<^verbatim>\<open>a[i]\<close>: a negative index counts from the end, out of range raises.\<close>

definition py_index :: "'a list \<Rightarrow> int \<Rightarrow> py_error + 'a" where
  "py_index a i =
     (let n = int (length a);
          j = (if i < 0 then n + i else i)
      in if 0 \<le> j \<and> j < n then Inr (a ! nat j) else Inl IndexError)"

subsection \<open>The spectral operations\<close>

definition calculate_fft :: "real list \<Rightarrow> real \<Rightarrow> py_error + real list \<times> real list" where
  "calculate_fft signal_array sampling_rate =
     bind_err (np_fft signal_array) (\<lambda>fft_vals.
     let n = length signal_array;
         fft_magnitude = map cmod fft_vals
     in
     bind_err (py_div 1 sampling_rate) (\<lambda>d.
     let freqs = np_fftfreq n d;
         positive_freq_idx = map (\<lambda>f. 0 \<le> f) freqs;
         freqs_positive = select_mask positive_freq_idx freqs;
         magnitude_positive = select_mask positive_freq_idx fft_magnitude
     in
     bind_err (np_max magnitude_positive) (\<lambda>mx.
     Inr (freqs_positive,
          if 0 < mx then map (\<lambda>v. v / mx) magnitude_positive else magnitude_positive))))"

text \<open>
  \<^verbatim>\<open>scipy.signal.welch\<close> is a library routine: its estimate is the parameter
  \<open>W\<close> (signal, sampling rate and segment length to frequencies and densities). What
  is modelled of it is its argument check: a segment length below 1 raises.
\<close>

definition scipy_welch ::
  "(real list \<Rightarrow> real \<Rightarrow> nat \<Rightarrow> real list \<times> real list) \<Rightarrow>
   real list \<Rightarrow> real \<Rightarrow> nat \<Rightarrow> py_error + real list \<times> real list" where
  "scipy_welch W x fs nperseg = (if nperseg < 1 then Inl ValueError else Inr (W x fs nperseg))"

definition calculate_psd ::
  "(real list \<Rightarrow> real \<Rightarrow> nat \<Rightarrow> real list \<times> real list) \<Rightarrow>
   real list \<Rightarrow> real \<Rightarrow> py_error + real list \<times> real list" where
  "calculate_psd W signal_array sampling_rate =
     bind_err (scipy_welch W signal_array sampling_rate (min 256 (length signal_array div 4)))
       (\<lambda>(freqs, psd_vals).
     bind_err (np_max psd_vals) (\<lambda>mx.
     Inr (freqs, if 0 < mx then map (\<lambda>v. v / mx) psd_vals else psd_vals)))"

record efficiency_metrics =
  dc_component :: real
  bandwidth_90 :: real
  spectral_efficiency :: real
  peak_frequency :: real
  bandwidth_efficiency :: real
  total_power :: real

definition calculate_spectral_efficiency_metrics ::
  "real list \<Rightarrow> real \<Rightarrow> real \<Rightarrow> py_error + efficiency_metrics" where
  "calculate_spectral_efficiency_metrics signal_array data_rate sampling_rate =
     bind_err (np_fft signal_array) (\<lambda>fft_vals.
     let n = length signal_array in
     bind_err (py_div 1 sampling_rate) (\<lambda>d.
     let freqs = np_fftfreq n d;
         power = map (\<lambda>z. (cmod z)\<^sup>2) fft_vals;
         positive_idx = map (\<lambda>f. 0 \<le> f) freqs;
         freqs_positive = select_mask positive_idx freqs;
         psd_positive = select_mask positive_idx power;
         dc_power = (if 0 < length psd_positive then psd_positive ! 0 else 0);
         total = sum_list psd_positive;
         dc_percentage = (if 0 < total then dc_power / total * 100 else 0);
         cumulative_power = np_cumsum psd_positive;
         total_power_90 = total * 0.9;
         bandwidth_idx = np_where (map (\<lambda>c. total_power_90 \<le> c) cumulative_power)
     in
     bind_err (if 0 < length bandwidth_idx
               then py_index freqs_positive (int (bandwidth_idx ! 0))
               else py_index freqs_positive (- 1)) (\<lambda>bw90.
     let efficiency = (if 0 < bw90 then data_rate / bw90 else 0) in
     bind_err (np_argmax (drop 1 psd_positive)) (\<lambda>am.
     let peak_idx = am + 1;
         peak = (if peak_idx < length freqs_positive then freqs_positive ! peak_idx else 0);
         bw_efficiency = (if 0 < data_rate then bw90 / data_rate else 0)
     in
     Inr \<lparr>dc_component = dc_percentage, bandwidth_90 = bw90,
          spectral_efficiency = efficiency, peak_frequency = peak,
          bandwidth_efficiency = bw_efficiency, total_power = total\<rparr>))))"

subsection \<open>The spectral-analysis handler\<close>

record spectral_summary =
  frequencies_fft :: "real list"
  magnitude :: "real list"
  frequencies_psd :: "real list"
  psd :: "real list"
  metrics :: efficiency_metrics

text \<open>The body of the loop over the four signals.\<close>

definition analyse_signal ::
  "(real list \<Rightarrow> real \<Rightarrow> nat \<Rightarrow> real list \<times> real list) \<Rightarrow>
   real list \<Rightarrow> real \<Rightarrow> real \<Rightarrow> py_error + spectral_summary" where
  "analyse_signal W sig data_rate sampling_rate =
     bind_err (calculate_fft sig sampling_rate) (\<lambda>(freqs_fft, mag).
     bind_err (calculate_psd W sig sampling_rate) (\<lambda>(freqs_psd, psd_vals).
     bind_err (calculate_spectral_efficiency_metrics sig data_rate sampling_rate) (\<lambda>m.
     Inr \<lparr>frequencies_fft = take (length freqs_fft div 2) freqs_fft,
          magnitude = take (length mag div 2) mag,
          frequencies_psd = freqs_psd, psd = psd_vals, metrics = m\<rparr>)))"

text \<open>The loop: \<open>results\<close> is the dictionary, as the list of its items in insertion order.\<close>

fun analysis_loop ::
  "(real list \<Rightarrow> real \<Rightarrow> nat \<Rightarrow> real list \<times> real list) \<Rightarrow> real \<Rightarrow> real \<Rightarrow>
   (string \<times> real list) list \<Rightarrow> (string \<times> spectral_summary) list \<Rightarrow>
   py_error + (string \<times> spectral_summary) list" where
  "analysis_loop W data_rate sampling_rate [] results = Inr results"
| "analysis_loop W data_rate sampling_rate ((name, sig) # rest) results =
     bind_err (analyse_signal W sig data_rate sampling_rate) (\<lambda>summary.
     analysis_loop W data_rate sampling_rate rest (results @ [(name, summary)]))"

definition spectral_analysis ::
  "(real list \<Rightarrow> real \<Rightarrow> nat \<Rightarrow> real list \<times> real list) \<Rightarrow>
   int list \<Rightarrow> int \<Rightarrow> real \<Rightarrow> http_error + (string \<times> spectral_summary) list" where
  "spectral_analysis W bits samples_per_bit data_rate =
     (if bits = [] then Inl (Http400 ''No bits provided'')
      else catch_500
        (let sampling_rate = real_of_int samples_per_bit * data_rate in
         bind_err (encode_nrz_l bits samples_per_bit) (\<lambda>nrz_l_signal.
         bind_err (encode_rz bits samples_per_bit) (\<lambda>rz_signal.
         bind_err (encode_manchester bits samples_per_bit) (\<lambda>manchester_signal.
         bind_err (encode_ami bits samples_per_bit) (\<lambda>ami_signal.
         analysis_loop W data_rate sampling_rate
           [(''nrz_l'', map real_of_int nrz_l_signal), (''rz'', rz_signal),
            (''manchester'', manchester_signal), (''ami'', ami_signal)] []))))))"

subsection \<open>The retained bins, as the specification describes them\<close>

text \<open>
  The specification's description of the spectrum that the metrics work on: bin \<open>k\<close> has
  frequency \<open>k * sampling_rate / n\<close>, the bins with \<open>k < n / 2\<close> are the ones whose
  frequency is not negative, and the power of a bin is the squared modulus of the
  transform. These two definitions follow that description; the operations above are
  compared with them.
\<close>

definition retained_freqs :: "nat \<Rightarrow> real \<Rightarrow> real list" where
  "retained_freqs n sampling_rate =
     map (\<lambda>k. real k * sampling_rate / real n) [0..<(n - 1) div 2 + 1]"

definition retained_power :: "real list \<Rightarrow> real list" where
  "retained_power x = map (\<lambda>k. (cmod (dft x k))\<^sup>2) [0..<(length x - 1) div 2 + 1]"

text \<open>
  Welch's estimate for a segment length of 1, the length that signals of 4 to 7 samples
  get: every segment is a single sample, removing its mean leaves 0, and the estimate is
  the one bin at frequency 0 with density 0.
\<close>

definition welch_unit_segments :: "real list \<Rightarrow> real \<Rightarrow> nat \<Rightarrow> real list \<times> real list" where
  "welch_unit_segments x fs nperseg = ([0], [0])"

subsection \<open>Blocks of a signal\<close>

text \<open>
  The samples that belong to bit \<open>i\<close> when every bit takes \<open>S\<close> samples:
  \<^verbatim>\<open>sig[i*S : i*S + S]\<close>.
\<close>

definition bit_block :: "'a list \<Rightarrow> nat \<Rightarrow> nat \<Rightarrow> 'a list" where
  "bit_block sig S i = take S (drop (i * S) sig)"

subsection \<open>Facts about the array primitives and the encoder loops\<close>

lemma length_slice_fill: "length (slice_fill a lo hi v) = length a"
  by (simp add: slice_fill_def)

lemma nth_slice_fill:
  "k < length a \<Longrightarrow> slice_fill a lo hi v ! k = (if lo \<le> k \<and> k < hi then v else a ! k)"
  by (simp add: slice_fill_def nth_enumerate_eq)

lemma length_concat_replicate: "length (concat (map (replicate n) xs)) = length xs * n"
  by (induction xs) simp_all

lemma nth_concat_replicate:
  "i < length xs \<Longrightarrow> j < n \<Longrightarrow> concat (map (replicate n) xs) ! (i * n + j) = xs ! i"
proof (induction xs arbitrary: i)
  case Nil
  then show ?case by simp
next
  case (Cons x xs)
  show ?case
  proof (cases i)
    case 0
    with Cons.prems show ?thesis by (simp add: nth_append)
  next
    case (Suc i')
    with Cons.prems have "i' < length xs" by simp
    from Cons.IH [OF this Cons.prems(2)] Suc show ?thesis
      by (simp add: nth_append add.assoc)
  qed
qed

lemma block_index: "j < S \<Longrightarrow> (i * S + j) div S = i \<and> (i * S + j) mod S = j"
  for i j S :: nat
  by simp

lemma length_rz_loop: "length (rz_loop S i bits sig) = length sig"
  by (induction bits arbitrary: i sig) (simp_all add: Let_def length_slice_fill)

lemma length_manchester_loop: "length (manchester_loop S i bits sig) = length sig"
  by (induction bits arbitrary: i sig) (simp_all add: Let_def length_slice_fill)

lemma length_ami_loop: "length (fst (ami_loop S i bits (sig, pol))) = length sig"
  by (induction bits arbitrary: i sig pol) (simp_all add: Let_def length_slice_fill)


lemma block_range:
  fixes i j k S a c :: nat
  assumes "j < S" "c \<le> S"
  shows "(i * S + a \<le> k * S + j \<and> k * S + j < i * S + c) = (k = i \<and> a \<le> j \<and> j < c)"
proof (cases "k = i")
  case True
  then show ?thesis by auto
next
  case False
  then consider "k < i" | "i < k" by linarith
  then show ?thesis
  proof cases
    case 1
    then have "Suc k * S \<le> i * S" by (intro mult_le_mono1) simp
    with assms 1 show ?thesis by auto
  next
    case 2
    then have "Suc i * S \<le> k * S" by (intro mult_le_mono1) simp
    with assms 2 show ?thesis by auto
  qed
qed

lemmas block_range0 = block_range [where a = 0, simplified]

lemma rz_loop_nth:
  "k * S + j < length sig \<Longrightarrow> j < S \<Longrightarrow>
   rz_loop S i bits sig ! (k * S + j) =
     (if i \<le> k \<and> k < i + length bits \<and> j < S div 2
      then (if bits ! (k - i) = 1 then 1 else - 1)
      else sig ! (k * S + j))"
proof (induction bits arbitrary: i sig)
  case Nil
  then show ?case by simp
next
  case (Cons b rest)
  have h: "S div 2 \<le> S" by simp
  show ?case
    using Cons.prems Cons.IH [of _ "Suc i"]
    by (auto simp: Let_def length_slice_fill nth_slice_fill block_range0 [OF _ h] Suc_diff_le
        nth_Cons')
qed


lemma manchester_loop_nth:
  "k * S + j < length sig \<Longrightarrow> j < S \<Longrightarrow>
   manchester_loop S i bits sig ! (k * S + j) =
     (if i \<le> k \<and> k < i + length bits
      then (if j < S div 2 then (if bits ! (k - i) = 1 then - 1 else 1)
            else (if bits ! (k - i) = 1 then 1 else - 1))
      else sig ! (k * S + j))"
proof (induction bits arbitrary: i sig)
  case Nil
  then show ?case by simp
next
  case (Cons b rest)
  have h: "S div 2 \<le> S" by simp
  have r1: "(i * S \<le> k * S + j \<and> k * S + j < i * S + S div 2) = (k = i \<and> j < S div 2)"
    using block_range [OF Cons.prems(2) h, of i 0 k] by simp
  have r2: "(i * S + S div 2 \<le> k * S + j \<and> k * S + j < i * S + S) = (k = i \<and> S div 2 \<le> j)"
    using block_range [OF Cons.prems(2) le_refl, of i "S div 2" k] Cons.prems(2) by auto
  show ?case
    using Cons.prems Cons.IH [of _ "Suc i"]
    by (auto simp: Let_def length_slice_fill nth_slice_fill r1 r2 Suc_diff_le nth_Cons')
qed

lemma ami_loop_nth:
  "k * S + j < length sig \<Longrightarrow> j < S \<Longrightarrow>
   fst (ami_loop S i bits (sig, pol)) ! (k * S + j) =
     (if i \<le> k \<and> k < i + length bits \<and> bits ! (k - i) = 1
      then real_of_int (pol * (- 1) ^ length (filter (\<lambda>b. b = 1) (take (k - i) bits)))
      else sig ! (k * S + j))"
proof (induction bits arbitrary: i sig pol)
  case Nil
  then show ?case by simp
next
  case (Cons b rest)
  have r: "(i * S \<le> k * S + j \<and> k * S + j < i * S + S) = (k = i)"
    using block_range [OF Cons.prems(2) le_refl, of i 0 k] Cons.prems(2) by simp
  show ?case
  proof (cases "b = 1")
    case True
    then show ?thesis
      using Cons.prems Cons.IH [of _ "Suc i"]
      by (auto simp: Let_def length_slice_fill nth_slice_fill r Suc_diff_le nth_Cons'
          take_Cons')
  next
    case False
    then show ?thesis
      using Cons.prems Cons.IH [of sig "Suc i" pol]
      by (auto simp: Suc_diff_le nth_Cons' take_Cons')
  qed
qed


lemma block_take_drop:
  assumes "i < N" "length sig = N * S"
  shows "take S (drop (i * S) sig) = map (\<lambda>j. sig ! (i * S + j)) [0..<S]"
proof -
  from assms(1) have "Suc i * S \<le> N * S" by (intro mult_le_mono1) simp
  with assms(2) have "i * S + S \<le> length sig" by simp
  then show ?thesis by (auto intro!: nth_equalityI)
qed

lemma block_in_range:
  fixes i j N S :: nat
  assumes "i < N" "j < S"
  shows "i * S + j < N * S"
proof -
  from assms(1) have "Suc i * S \<le> N * S" by (intro mult_le_mono1) simp
  with assms(2) show ?thesis by simp
qed

lemma encode_nrz_l_eq:
  "0 \<le> S \<Longrightarrow>
   encode_nrz_l bits S =
     Inr (map (\<lambda>x. if x = 1 then 1 else - 1) (concat (map (replicate (nat S)) bits)))"
  by (simp add: encode_nrz_l_def np_repeat_def)

lemma encode_rz_eq:
  "0 \<le> S \<Longrightarrow>
   encode_rz bits S = Inr (rz_loop (nat S) 0 bits (replicate (length bits * nat S) 0))"
  by (simp add: encode_rz_def np_zeros_def nat_mult_distrib not_less mult_nonneg_nonneg)

lemma encode_manchester_eq:
  "0 \<le> S \<Longrightarrow>
   encode_manchester bits S =
     Inr (manchester_loop (nat S) 0 bits (replicate (length bits * nat S) 0))"
  by (simp add: encode_manchester_def np_zeros_def nat_mult_distrib not_less
      mult_nonneg_nonneg)

lemma encode_ami_eq:
  "0 \<le> S \<Longrightarrow>
   encode_ami bits S =
     Inr (fst (ami_loop (nat S) 0 bits (replicate (length bits * nat S) 0, 1)))"
  by (simp add: encode_ami_def np_zeros_def nat_mult_distrib not_less mult_nonneg_nonneg)

lemma manchester_block:
  assumes "0 \<le> S" "i < length bits"
  shows "\<exists>sig. encode_manchester bits S = Inr sig \<and>
           take (nat S) (drop (i * nat S) sig) =
             map (\<lambda>j. if j < nat S div 2 then (if bits ! i = 1 then - 1 else 1)
                       else (if bits ! i = 1 then 1 else - 1)) [0..<nat S]"
proof -
  let ?z = "replicate (length bits * nat S) (0::real)"
  let ?sig = "manchester_loop (nat S) 0 bits ?z"
  have len: "length ?sig = length bits * nat S" by (simp add: length_manchester_loop)
  have "take (nat S) (drop (i * nat S) ?sig) = map (\<lambda>j. ?sig ! (i * nat S + j)) [0..<nat S]"
    by (rule block_take_drop [OF assms(2) len])
  also have "\<dots> = map (\<lambda>j. if j < nat S div 2 then (if bits ! i = 1 then - 1 else 1)
                       else (if bits ! i = 1 then 1 else - 1)) [0..<nat S]"
  proof (rule map_cong [OF refl])
    fix j assume "j \<in> set [0..<nat S]"
    then have j: "j < nat S" by simp
    have "i * nat S + j < length ?z" using block_in_range [OF assms(2) j] by simp
    from manchester_loop_nth [OF this j, of 0 bits] assms(2)
    show "?sig ! (i * nat S + j) =
            (if j < nat S div 2 then (if bits ! i = 1 then - 1 else 1)
             else (if bits ! i = 1 then 1 else - 1))"
      by simp
  qed
  finally show ?thesis using assms(1) by (simp add: encode_manchester_eq)
qed

lemma count_ones_none:
  assumes "i \<le> length bits" "\<forall>k<i. bits ! k \<noteq> (1::int)"
  shows "filter (\<lambda>b. b = 1) (take i bits) = []"
  using assms by (auto simp: filter_empty_conv in_set_conv_nth)

lemma count_ones_next:
  assumes "k < i" "i \<le> length bits" "bits ! k = (1::int)"
    and "\<forall>m. k < m \<and> m < i \<longrightarrow> bits ! m \<noteq> 1"
  shows "length (filter (\<lambda>b. b = 1) (take i bits)) =
         Suc (length (filter (\<lambda>b. b = 1) (take k bits)))"
proof -
  define d where "d = i - Suc k"
  have i: "i = k + Suc d" using assms(1) by (simp add: d_def)
  have klen: "k < length bits" using assms(1,2) by simp
  have "take i bits = take k bits @ take (Suc d) (drop k bits)"
    unfolding i by (rule take_add)
  also have "drop k bits = bits ! k # drop (Suc k) bits"
    using klen by (rule Cons_nth_drop_Suc [symmetric])
  finally have split: "take i bits = take k bits @ bits ! k # take d (drop (Suc k) bits)"
    by (simp only: take_Suc_Cons)
  have rest: "filter (\<lambda>b. b = 1) (take d (drop (Suc k) bits)) = []"
  proof -
    have "x \<noteq> 1" if "x \<in> set (take d (drop (Suc k) bits))" for x
    proof -
      from that obtain m where ml: "m < length (take d (drop (Suc k) bits))"
        and xm: "take d (drop (Suc k) bits) ! m = x"
        unfolding in_set_conv_nth by blast
      from ml have m: "m < d" "m < length bits - Suc k" by simp_all
      have "take d (drop (Suc k) bits) ! m = drop (Suc k) bits ! m"
        using m(1) by (rule nth_take)
      also have "\<dots> = bits ! (Suc k + m)"
        using m(2) by (intro nth_drop) simp
      finally have xb: "x = bits ! (Suc k + m)" using xm by simp
      have range: "k < Suc k + m \<and> Suc k + m < i" using m(1) by (simp add: i)
      from assms(4) have "k < Suc k + m \<and> Suc k + m < i \<longrightarrow> bits ! (Suc k + m) \<noteq> 1"
        by (rule spec)
      with range have "bits ! (Suc k + m) \<noteq> 1" by (rule rev_mp)
      then show ?thesis by (simp only: xb not_False_eq_True)
    qed
    then show ?thesis by (simp only: filter_empty_conv) blast
  qed
  show ?thesis
    unfolding split by (simp only: filter_append filter.simps rest assms(3)) simp
qed

lemma ami_block:
  assumes "i < length bits"
  shows "bit_block (fst (ami_loop S 0 bits (replicate (length bits * S) 0, 1))) S i =
         replicate S (if bits ! i = 1
                      then real_of_int ((- 1) ^ length (filter (\<lambda>b. b = 1) (take i bits)))
                      else 0)"
proof -
  let ?z = "replicate (length bits * S) (0::real)"
  let ?sig = "fst (ami_loop S 0 bits (?z, 1))"
  have len: "length ?sig = length bits * S" by (simp add: length_ami_loop)
  have "bit_block ?sig S i = map (\<lambda>j. ?sig ! (i * S + j)) [0..<S]"
    unfolding bit_block_def by (rule block_take_drop [OF assms len])
  also have "\<dots> = map (\<lambda>j. if bits ! i = 1
                      then real_of_int ((- 1) ^ length (filter (\<lambda>b. b = 1) (take i bits)))
                      else 0) [0..<S]"
  proof (rule map_cong [OF refl])
    fix j assume "j \<in> set [0..<S]"
    then have j: "j < S" by simp
    have in_range: "i * S + j < length ?z" using block_in_range [OF assms j] by simp
    then have "?z ! (i * S + j) = 0" by simp
    with ami_loop_nth [OF in_range j, of 0 bits 1] assms
    show "?sig ! (i * S + j) =
            (if bits ! i = 1
             then real_of_int ((- 1) ^ length (filter (\<lambda>b. b = 1) (take i bits))) else 0)"
      by simp
  qed
  finally show ?thesis by (simp add: map_replicate_const)
qed

lemma slice_fill_Nil: "slice_fill [] lo hi v = []"
  by (simp add: slice_fill_def)

lemma slice_fill_Cons:
  "slice_fill (x # xs) lo hi v =
     (if lo = 0 \<and> 0 < hi then v else x) # slice_fill xs (lo - 1) (hi - 1) v"
  by (auto simp: slice_fill_def enumerate_Suc_eq intro!: nth_equalityI)

lemma replicate_numeral_Cons: "replicate (numeral k) x = x # replicate (pred_numeral k) x"
  by (simp add: numeral_eq_Suc)

lemmas eval_encoders = replicate_numeral_Cons
  encode_nrz_l_def encode_rz_def encode_manchester_def encode_ami_def np_repeat_def
  np_zeros_def slice_fill_Nil slice_fill_Cons Let_def

lemma neg_one_power_cases: "(- 1 :: real) ^ n = 1 \<or> (- 1 :: real) ^ n = - 1"
  by (cases "even n") simp_all

subsection \<open>Facts about sequencing and the handlers\<close>

lemma bind_err_Inr [simp]: "bind_err (Inr x) f = f x"
  by (simp add: bind_err_def)

lemma bind_err_Inl [simp]: "bind_err (Inl e) f = Inl e"
  by (simp add: bind_err_def)

lemma catch_500_simps [simp]:
  "catch_500 (Inl e) = Inl (Http500 e)" "catch_500 (Inr x) = Inr x"
  by (simp_all add: catch_500_def)

lemma negative_total:
  assumes "bits \<noteq> []" "S < 0"
  shows "int (length bits) * S < 0"
proof -
  from assms(1) have "0 < int (length bits)" by simp
  then show ?thesis using assms(2) by (rule mult_pos_neg)
qed

lemma calculate_psd_short:
  assumes "length sig < 4"
  shows "calculate_psd W sig fs = Inl ValueError"
  using assms by (simp add: calculate_psd_def scipy_welch_def)

lemma analyse_signal_short:
  assumes "length sig < 4"
  shows "\<exists>e. analyse_signal W sig data_rate fs = Inl e"
proof (cases "calculate_fft sig fs")
  case (Inl e)
  then show ?thesis by (simp add: analyse_signal_def)
next
  case (Inr p)
  then show ?thesis
    by (cases p) (simp add: analyse_signal_def calculate_psd_short [OF assms])
qed

subsection \<open>Facts about the spectral operations\<close>

lemma fold_max_eq: "fold max xs x = Max (set (x # xs))"
  by (rule Max.set_eq_fold [symmetric])

lemma np_max_eq: "xs \<noteq> [] \<Longrightarrow> np_max xs = Inr (Max (set xs))"
  by (cases xs) (simp_all only: np_max.simps fold_max_eq, simp)

lemma np_max_Inr: "np_max xs = Inr m \<Longrightarrow> xs \<noteq> [] \<and> m = Max (set xs)"
  by (cases xs) (simp_all only: np_max.simps fold_max_eq, auto)

lemma normalise_by_max:
  fixes xs :: "real list"
  assumes ne: "xs \<noteq> []" and nonneg: "\<forall>x\<in>set xs. 0 \<le> x"
  defines "mx \<equiv> Max (set xs)"
  defines "ys \<equiv> (if 0 < mx then map (\<lambda>v. v / mx) xs else xs)"
  shows "ys \<noteq> [] \<and> (Max (set ys) = 1 \<or> (\<forall>y\<in>set ys. y = 0)) \<and> (\<forall>y\<in>set ys. 0 \<le> y \<and> y \<le> 1)"
proof (cases "0 < mx")
  case True
  have ys: "ys = map (\<lambda>v. v / mx) xs" using True by (simp add: ys_def)
  have le: "x \<le> mx" if "x \<in> set xs" for x using that by (simp add: mx_def)
  have "mono (\<lambda>v. v / mx)" using True by (intro monoI) (simp add: divide_right_mono)
  then have "Max ((\<lambda>v. v / mx) ` set xs) = Max (set xs) / mx"
    using ne by (intro mono_Max_commute [symmetric]) simp_all
  then have "Max (set ys) = 1" using True by (simp add: ys mx_def)
  moreover have "0 \<le> y \<and> y \<le> 1" if "y \<in> set ys" for y
  proof -
    from that obtain x where x: "x \<in> set xs" "y = x / mx" by (auto simp: ys)
    with nonneg le [OF x(1)] True show ?thesis by simp
  qed
  ultimately show ?thesis using ne by (simp add: ys)
next
  case False
  have ys: "ys = xs" using False by (simp add: ys_def)
  have zero: "x = 0" if "x \<in> set xs" for x
  proof -
    from that have "x \<le> mx" by (simp add: mx_def)
    with False nonneg that show ?thesis by force
  qed
  then have "\<forall>y\<in>set xs. y = 0" by blast
  moreover have "\<forall>y\<in>set xs. 0 \<le> y \<and> y \<le> 1"
  proof
    fix y assume "y \<in> set xs"
    then have "y = 0" by (rule zero)
    then show "0 \<le> y \<and> y \<le> 1" by simp
  qed
  ultimately show ?thesis using ne unfolding ys by blast
qed

lemma set_select_mask: "set (select_mask msk xs) \<subseteq> set xs"
  unfolding select_mask_def by (auto dest: set_zip_rightD)

lemma calculate_fft_normalised:
  assumes "calculate_fft sig fs = Inr (f, mag)"
  shows "mag \<noteq> [] \<and> (Max (set mag) = 1 \<or> (\<forall>v\<in>set mag. v = 0)) \<and>
         (\<forall>v\<in>set mag. 0 \<le> v \<and> v \<le> 1)"
proof -
  from assms obtain fft_vals d where fft: "np_fft sig = Inr fft_vals"
    and d: "py_div 1 fs = Inr d"
    by (auto simp: calculate_fft_def bind_err_def split: sum.splits)
  define mp where
    "mp = select_mask (map (\<lambda>f. 0 \<le> f) (np_fftfreq (length sig) d)) (map cmod fft_vals)"
  from assms fft d obtain mx where mx: "np_max mp = Inr mx"
    and mag: "mag = (if 0 < mx then map (\<lambda>v. v / mx) mp else mp)"
    by (auto simp: calculate_fft_def Let_def mp_def bind_err_def split: sum.splits)
  from np_max_Inr [OF mx] have ne: "mp \<noteq> []" and mxeq: "mx = Max (set mp)" by simp_all
  have "set mp \<subseteq> set (map cmod fft_vals)" unfolding mp_def by (rule set_select_mask)
  then have nonneg: "\<forall>x\<in>set mp. 0 \<le> x" by auto
  from normalise_by_max [OF ne nonneg] show ?thesis unfolding mag mxeq .
qed

lemma calculate_psd_normalised:
  assumes W: "\<forall>x fs k. \<forall>p\<in>set (snd (W x fs k)). 0 \<le> p"
    and "calculate_psd W sig fs = Inr (f, p)"
  shows "p \<noteq> [] \<and> (Max (set p) = 1 \<or> (\<forall>v\<in>set p. v = 0))"
proof -
  define raw where "raw = snd (W sig fs (min 256 (length sig div 4)))"
  from assms(2) obtain mx where mx: "np_max raw = Inr mx"
    and p: "p = (if 0 < mx then map (\<lambda>v. v / mx) raw else raw)"
    by (auto simp: calculate_psd_def scipy_welch_def raw_def bind_err_def
        split: sum.splits if_splits prod.splits)
  from np_max_Inr [OF mx] have ne: "raw \<noteq> []" and mxeq: "mx = Max (set raw)" by simp_all
  from W have nonneg: "\<forall>x\<in>set raw. 0 \<le> x" unfolding raw_def by blast
  from normalise_by_max [OF ne nonneg] show ?thesis unfolding p mxeq by blast
qed

lemma analyse_signal_Inr:
  assumes "analyse_signal W sig data_rate fs = Inr s"
  shows "\<exists>f mag fp. calculate_fft sig fs = Inr (f, mag) \<and>
           calculate_psd W sig fs = Inr (fp, psd s) \<and>
           magnitude s = take (length mag div 2) mag"
  using assms
  by (auto simp: analyse_signal_def bind_err_def split: sum.splits prod.splits)

lemma analysis_loop_member:
  assumes "analysis_loop W data_rate fs sigs acc = Inr results" "(name, s) \<in> set results"
  shows "(name, s) \<in> set acc \<or>
         (\<exists>sig. (name, sig) \<in> set sigs \<and> analyse_signal W sig data_rate fs = Inr s)"
  using assms
proof (induction sigs arbitrary: acc)
  case Nil
  then show ?case by simp
next
  case (Cons a sigs)
  obtain nm sg where a: "a = (nm, sg)" by (cases a)
  from Cons.prems(1) obtain summary where
    s1: "analyse_signal W sg data_rate fs = Inr summary" and
    rest: "analysis_loop W data_rate fs sigs (acc @ [(nm, summary)]) = Inr results"
    by (auto simp: a bind_err_def split: sum.splits)
  from Cons.IH [OF rest Cons.prems(2)] s1 show ?case by (auto simp: a)
qed

lemma spectral_analysis_member:
  assumes "spectral_analysis W bits S data_rate = Inr results" "(name, s) \<in> set results"
  shows "\<exists>sig. analyse_signal W sig data_rate (real_of_int S * data_rate) = Inr s"
proof -
  from assms(1) obtain a b c d where
    "analysis_loop W data_rate (real_of_int S * data_rate)
       [(''nrz_l'', a), (''rz'', b), (''manchester'', c), (''ami'', d)] [] = Inr results"
    by (auto simp: spectral_analysis_def catch_500_def bind_err_def Let_def
        simp del: analysis_loop.simps split: if_splits sum.splits)
  from analysis_loop_member [OF this assms(2)] show ?thesis by auto
qed

lemma fftfreq_bins:
  "(n - 1) div 2 + 1 + n div 2 = n" if "0 < n" for n :: nat
  using that by presburger

lemma np_fftfreq_positive_rate:
  assumes "0 < n" "0 < fs"
  shows "np_fftfreq n (1 / fs) =
           retained_freqs n fs @
           map (\<lambda>k. (real k - real (n div 2)) * fs / real n) [0..<n div 2]"
  using assms by (simp add: np_fftfreq_def retained_freqs_def Let_def field_simps)

lemma select_mask_append:
  "length m1 = length x1 \<Longrightarrow>
   select_mask (m1 @ m2) (x1 @ x2) = select_mask m1 x1 @ select_mask m2 x2"
  by (simp add: select_mask_def)

lemma select_mask_all: "length xs = n \<Longrightarrow> select_mask (replicate n True) xs = xs"
  by (induction xs arbitrary: n) (auto simp: select_mask_def)

lemma select_mask_none: "select_mask (replicate n False) xs = []"
  by (induction xs arbitrary: n) (auto simp: select_mask_def filter_empty_conv dest: set_zip_leftD)

lemma positive_mask:
  assumes "0 < n" "0 < fs"
  shows "map (\<lambda>f. 0 \<le> f) (np_fftfreq n (1 / fs)) =
           replicate ((n - 1) div 2 + 1) True @ replicate (n div 2) False"
proof -
  have "map (\<lambda>f. 0 \<le> f) (map (\<lambda>k. real k * fs / real n) [0..<N]) = replicate N True" for N
    using assms by (intro nth_equalityI) simp_all
  then have a: "map (\<lambda>f. 0 \<le> f) (retained_freqs n fs) = replicate ((n - 1) div 2 + 1) True"
    unfolding retained_freqs_def .
  have b: "map (\<lambda>f. 0 \<le> f) (map (\<lambda>k. (real k - real (n div 2)) * fs / real n) [0..<n div 2]) =
           replicate (n div 2) False"
  proof (rule nth_equalityI)
    show "length (map (\<lambda>f. 0 \<le> f)
        (map (\<lambda>k. (real k - real (n div 2)) * fs / real n) [0..<n div 2])) =
        length (replicate (n div 2) False)" by simp
  next
    fix i assume "i < length (map (\<lambda>f. 0 \<le> f)
        (map (\<lambda>k. (real k - real (n div 2)) * fs / real n) [0..<n div 2]))"
    then have i: "i < n div 2" by simp
    then have "(real i - real (n div 2)) * fs / real n < 0"
      using assms by (simp add: divide_neg_pos mult_neg_pos)
    with i show "map (\<lambda>f. 0 \<le> f)
        (map (\<lambda>k. (real k - real (n div 2)) * fs / real n) [0..<n div 2]) ! i =
        replicate (n div 2) False ! i" by simp
  qed
  show ?thesis unfolding np_fftfreq_positive_rate [OF assms] map_append a b ..
qed

lemma select_positive:
  assumes "0 < n" "0 < fs" "length xs = n"
  shows "select_mask (map (\<lambda>f. 0 \<le> f) (np_fftfreq n (1 / fs))) xs =
         take ((n - 1) div 2 + 1) xs"
proof -
  let ?N = "(n - 1) div 2 + 1"
  have xs: "xs = take ?N xs @ drop ?N xs" by simp
  have len: "length (replicate ?N True) = length (take ?N xs)"
    using assms(1,3) fftfreq_bins [OF assms(1)] by simp
  have "select_mask (replicate ?N True @ replicate (n div 2) False) (take ?N xs @ drop ?N xs) =
        select_mask (replicate ?N True) (take ?N xs) @
        select_mask (replicate (n div 2) False) (drop ?N xs)"
    using len by (rule select_mask_append)
  also have "\<dots> = take ?N xs"
  proof -
    from len have "length (take ?N xs) = ?N" by (simp only: length_replicate)
    then have "select_mask (replicate ?N True) (take ?N xs) = take ?N xs"
      by (rule select_mask_all)
    then show ?thesis by (simp only: select_mask_none append_Nil2)
  qed
  finally show ?thesis unfolding positive_mask [OF assms(1,2)] by simp
qed

lemma freqs_positive_eq:
  assumes "0 < n" "0 < fs"
  shows "select_mask (map (\<lambda>f. 0 \<le> f) (np_fftfreq n (1 / fs))) (np_fftfreq n (1 / fs)) =
         retained_freqs n fs"
proof -
  have "length (np_fftfreq n (1 / fs)) = n"
    using fftfreq_bins [OF assms(1)] by (simp add: np_fftfreq_def Let_def)
  from select_positive [OF assms this] show ?thesis
    by (simp add: np_fftfreq_positive_rate [OF assms] retained_freqs_def)
qed

lemma power_positive_eq:
  assumes "sig \<noteq> []" "0 < fs"
  shows "select_mask (map (\<lambda>f. 0 \<le> f) (np_fftfreq (length sig) (1 / fs)))
           (map (\<lambda>z. (cmod z)\<^sup>2) (map (dft sig) [0..<length sig])) = retained_power sig"
proof -
  from assms(1) have n: "0 < length sig" by simp
  have "length (map (\<lambda>z. (cmod z)\<^sup>2) (map (dft sig) [0..<length sig])) = length sig" by simp
  from select_positive [OF n assms(2) this] fftfreq_bins [OF n] show ?thesis
    by (simp add: retained_power_def take_map)
qed

lemma magnitude_positive_eq:
  assumes "sig \<noteq> []" "0 < fs"
  shows "select_mask (map (\<lambda>f. 0 \<le> f) (np_fftfreq (length sig) (1 / fs)))
           (map cmod (map (dft sig) [0..<length sig])) =
         map (\<lambda>k. cmod (dft sig k)) [0..<(length sig - 1) div 2 + 1]"
proof -
  from assms(1) have n: "0 < length sig" by simp
  have "length (map cmod (map (dft sig) [0..<length sig])) = length sig" by simp
  from select_positive [OF n assms(2) this] fftfreq_bins [OF n] show ?thesis
    by (simp add: take_map)
qed

lemma length_cumsum_from: "length (cumsum_from acc xs) = length xs"
  by (induction xs arbitrary: acc) simp_all

lemma nth_cumsum_from:
  "i < length xs \<Longrightarrow> cumsum_from acc xs ! i = acc + sum_list (take (Suc i) xs)"
proof (induction xs arbitrary: acc i)
  case Nil
  then show ?case by simp
next
  case (Cons x xs)
  show ?case
  proof (cases i)
    case 0
    then show ?thesis by simp
  next
    case (Suc j)
    with Cons.prems have "j < length xs" by simp
    from Cons.IH [OF this, of "acc + x"] Suc show ?thesis by (simp add: add.assoc)
  qed
qed

lemma nth_np_cumsum: "i < length xs \<Longrightarrow> np_cumsum xs ! i = sum_list (take (Suc i) xs)"
  by (simp add: np_cumsum_def nth_cumsum_from)

lemma filter_upt_first:
  "filter P [0..<n] = i # rest \<Longrightarrow> i < n \<and> P i \<and> (\<forall>k<i. \<not> P k)"
proof (induction n arbitrary: rest)
  case 0
  then show ?case by simp
next
  case (Suc n)
  show ?case
  proof (cases "filter P [0..<n]")
    case Nil
    then have none: "\<forall>k<n. \<not> P k" by (auto simp: filter_empty_conv)
    from Suc.prems Nil have "P n \<and> i = n" by (auto split: if_splits)
    with none show ?thesis by simp
  next
    case (Cons a as)
    with Suc.prems have "i = a" by (auto split: if_splits)
    with Suc.IH [of as] Cons show ?thesis by auto
  qed
qed

lemma np_where_first:
  assumes "j < length msk" "msk ! j"
  shows "np_where msk \<noteq> [] \<and> np_where msk ! 0 < length msk \<and> msk ! (np_where msk ! 0) \<and>
         (\<forall>k<np_where msk ! 0. \<not> msk ! k)"
proof -
  from assms have "j \<in> set (np_where msk)" by (simp add: np_where_def)
  then obtain i rest where eq: "np_where msk = i # rest" by (cases "np_where msk") auto
  then have "filter (\<lambda>i. msk ! i) [0..<length msk] = i # rest" by (simp add: np_where_def)
  from filter_upt_first [OF this] eq show ?thesis by simp
qed

lemma retained_power_nonneg: "0 \<le> sum_list (retained_power x)"
  by (rule sum_list_nonneg) (auto simp: retained_power_def)

lemma sum_list_take_nonneg:
  "0 \<le> sum_list (take k (retained_power x))"
  by (rule sum_list_nonneg) (auto simp: retained_power_def dest!: in_set_takeD)

lemma length_retained: 
  "length (retained_power x) = (length x - 1) div 2 + 1"
  "length (retained_freqs n fs) = (n - 1) div 2 + 1"
  by (simp_all add: retained_power_def retained_freqs_def)

lemma nth_retained_freqs:
  assumes "i < (n - 1) div 2 + 1"
  shows "retained_freqs n fs ! i = real i * fs / real n"
proof -
  have "map (\<lambda>k. real k * fs / real n) [0..<N] ! i = real i * fs / real n" if "i < N" for N
    using that by simp
  from this [OF assms] show ?thesis unfolding retained_freqs_def .
qed

lemma py_index_nat: "i < length a \<Longrightarrow> py_index a (int i) = Inr (a ! i)"
  by (simp add: py_index_def Let_def)

lemma np_argmax_Inr: "xs \<noteq> [] \<Longrightarrow> \<exists>k. np_argmax xs = Inr k"
  by (cases xs) simp_all

lemma metrics_unfold:
  assumes "sig \<noteq> []" "0 < fs"
  shows "calculate_spectral_efficiency_metrics sig dr fs =
    (let fp = retained_freqs (length sig) fs;
         pp = retained_power sig;
         total = sum_list pp;
         bandwidth_idx = np_where (map (\<lambda>c. total * 0.9 \<le> c) (np_cumsum pp))
     in bind_err (if 0 < length bandwidth_idx then py_index fp (int (bandwidth_idx ! 0))
                  else py_index fp (- 1)) (\<lambda>bw90.
        bind_err (np_argmax (drop 1 pp)) (\<lambda>am.
        Inr \<lparr>dc_component = (if 0 < total then (if 0 < length pp then pp ! 0 else 0) / total * 100
                               else 0),
             bandwidth_90 = bw90,
             spectral_efficiency = (if 0 < bw90 then dr / bw90 else 0),
             peak_frequency = (if am + 1 < length fp then fp ! (am + 1) else 0),
             bandwidth_efficiency = (if 0 < dr then bw90 / dr else 0),
             total_power = total\<rparr>)))"
proof -
  have fft: "np_fft sig = Inr (map (dft sig) [0..<length sig])"
    using assms(1) by (simp add: np_fft_def)
  have d: "py_div 1 fs = Inr (1 / fs)" using assms(2) by (simp add: py_div_def)
  from assms(1) have n: "0 < length sig" by simp
  show ?thesis
    unfolding calculate_spectral_efficiency_metrics_def fft d bind_err_Inr Let_def
      freqs_positive_eq [OF n assms(2)] power_positive_eq [OF assms]
    by (rule refl)
qed


lemma cis_quarter_turns:
  "cis (- (pi / 2)) = - \<i>" "cis (- pi) = - 1" "cis (- (pi * 3 / 2)) = \<i>"
proof -
  show a: "cis (- (pi / 2)) = - \<i>" by simp
  show b: "cis (- pi) = - 1" by (simp add: complex_eq_iff)
  have "- (pi * 3 / 2) = - pi + - (pi / 2)" by simp
  then have "cis (- (pi * 3 / 2)) = cis (- pi) * cis (- (pi / 2))"
    by (simp only: cis_mult)
  then show "cis (- (pi * 3 / 2)) = \<i>" by (simp only: a b) simp
qed

lemma upt_4: "[0..<4] = [0, 1, 2, 3]"
  by (simp add: upt_rec)

lemma dft4_bin0: "dft [a, b, c, d] 0 = of_real (a + b + c + d)"
  by (simp add: dft_def upt_4)

lemma dft4_bin1: "dft [a, b, c, d] 1 = Complex (a - c) (d - b)"
proof -
  have "dft [a, b, c, d] 1 =
      of_real a * cis 0 + of_real b * cis (- (pi / 2)) + of_real c * cis (- pi) +
      of_real d * cis (- (pi * 3 / 2))"
    by (simp add: dft_def upt_4 del: cis_minus_pi_half cis_zero)
  then show ?thesis
    by (simp only: cis_quarter_turns cis_zero) (simp add: complex_eq_iff)
qed


lemma retained_freqs_4: "retained_freqs 4 fs = [0, fs / 4]"
proof -
  have "(4 - 1) div 2 + 1 = (2::nat)" by simp
  moreover have "[0..<2] = [0, Suc 0]" by (simp add: upt_rec)
  ultimately show ?thesis unfolding retained_freqs_def by simp
qed

lemma retained_magnitude_4:
  "map (\<lambda>k. cmod (dft [a, b, c, d] k)) [0..<(length [a, b, c, d] - 1) div 2 + 1] =
     [\<bar>a + b + c + d\<bar>, sqrt ((a - c)\<^sup>2 + (d - b)\<^sup>2)]"
proof -
  have "(length [a, b, c, d] - 1) div 2 + 1 = (2::nat)" by simp
  moreover have "[0..<2] = [0, 1]" by (simp add: upt_rec)
  ultimately show ?thesis by (simp add: dft4_bin0 dft4_bin1 cmod_def del: One_nat_def)
qed

lemma retained_power_4:
  "retained_power [a, b, c, d] = [(a + b + c + d)\<^sup>2, (a - c)\<^sup>2 + (d - b)\<^sup>2]"
proof -
  have "(length [a, b, c, d] - 1) div 2 + 1 = (2::nat)" by simp
  moreover have "[0..<2] = [0, 1]" by (simp add: upt_rec)
  ultimately show ?thesis
    unfolding retained_power_def
    by (simp add: dft4_bin0 dft4_bin1 cmod_power2 del: One_nat_def)
qed

lemma calculate_fft_4:
  assumes "0 < fs"
  shows "calculate_fft [a, b, c, d] fs =
    (let m0 = \<bar>a + b + c + d\<bar>; m1 = sqrt ((a - c)\<^sup>2 + (d - b)\<^sup>2); mx = max m1 m0
     in Inr ([0, fs / 4], if 0 < mx then [m0 / mx, m1 / mx] else [m0, m1]))"
proof -
  have ne: "[a, b, c, d] \<noteq> []" by simp
  have n: "0 < length [a, b, c, d]" by simp
  have fft: "np_fft [a, b, c, d] = Inr (map (dft [a, b, c, d]) [0..<length [a, b, c, d]])"
    by (simp add: np_fft_def)
  have d: "py_div 1 fs = Inr (1 / fs)" using assms by (simp add: py_div_def)
  have len: "length [a, b, c, d] = 4" by simp
  show ?thesis
    unfolding calculate_fft_def fft d bind_err_Inr Let_def
      freqs_positive_eq [OF n assms] magnitude_positive_eq [OF ne assms] retained_magnitude_4
    unfolding len retained_freqs_4
    by (simp only: np_max.simps fold.simps o_apply id_apply bind_err_Inr list.map)
qed

lemma metrics_4:
  assumes "0 < fs"
  shows "calculate_spectral_efficiency_metrics [a, b, c, d] dr fs =
    (let p0 = (a + b + c + d)\<^sup>2; p1 = (a - c)\<^sup>2 + (d - b)\<^sup>2; total = p0 + p1;
         bw = (if total * 0.9 \<le> p0 then 0 else fs / 4)
     in Inr \<lparr>dc_component = (if 0 < total then p0 / total * 100 else 0),
             bandwidth_90 = bw,
             spectral_efficiency = (if 0 < bw then dr / bw else 0),
             peak_frequency = fs / 4,
             bandwidth_efficiency = (if 0 < dr then bw / dr else 0),
             total_power = total\<rparr>)"
proof -
  have ne: "[a, b, c, d] \<noteq> []" by simp
  have len: "length [a, b, c, d] = 4" by simp
  have p1: "0 \<le> (a - c)\<^sup>2 + (d - b)\<^sup>2" by simp
  have p0: "0 \<le> (a + b + c + d)\<^sup>2" by simp
  have u: "[0..<2] = [0, 1]" by (simp add: upt_rec)
  show ?thesis
    unfolding metrics_unfold [OF ne assms] retained_power_4 len retained_freqs_4
    using p0 p1
    by (simp add: Let_def np_cumsum_def np_where_def py_index_def u)
qed

lemma calculate_psd_unit_4:
  "calculate_psd welch_unit_segments [a, b, c, d] fs = Inr ([0], [0])"
  by (simp add: calculate_psd_def scipy_welch_def welch_unit_segments_def)


lemma analyse_unit_nrz:
  "analyse_signal welch_unit_segments [1, 1, - 1, 1] 1 1 =
     Inr \<lparr>frequencies_fft = [0], magnitude = [1], frequencies_psd = [0], psd = [0],
          metrics = \<lparr>dc_component = 50, bandwidth_90 = 1 / 4, spectral_efficiency = 4,
                      peak_frequency = 1 / 4, bandwidth_efficiency = 1 / 4,
                      total_power = 8\<rparr>\<rparr>"
  by (simp add: analyse_signal_def calculate_fft_4 calculate_psd_unit_4 metrics_4 Let_def)

lemma analyse_unit_zero:
  "analyse_signal welch_unit_segments [0, 0, 0, 0] 1 1 =
     Inr \<lparr>frequencies_fft = [0], magnitude = [0], frequencies_psd = [0], psd = [0],
          metrics = \<lparr>dc_component = 0, bandwidth_90 = 0, spectral_efficiency = 0,
                      peak_frequency = 1 / 4, bandwidth_efficiency = 0,
                      total_power = 0\<rparr>\<rparr>"
  by (simp add: analyse_signal_def calculate_fft_4 calculate_psd_unit_4 metrics_4 Let_def)

lemma analyse_unit_ami:
  "analyse_signal welch_unit_segments [1, - 1, 0, 1] 1 1 =
     Inr \<lparr>frequencies_fft = [0], magnitude = [1 / sqrt 5], frequencies_psd = [0], psd = [0],
          metrics = \<lparr>dc_component = 50 / 3, bandwidth_90 = 1 / 4, spectral_efficiency = 4,
                      peak_frequency = 1 / 4, bandwidth_efficiency = 1 / 4,
                      total_power = 6\<rparr>\<rparr>"
  by (simp add: analyse_signal_def calculate_fft_4 calculate_psd_unit_4 metrics_4 Let_def)

lemma encoders_example:
  "encode_nrz_l [1, 1, 0, 1] 1 = Inr [1, 1, - 1, 1]"
  "encode_rz [1, 1, 0, 1] 1 = Inr [0, 0, 0, 0]"
  "encode_manchester [1, 1, 0, 1] 1 = Inr [1, 1, - 1, 1]"
  "encode_ami [1, 1, 0, 1] 1 = Inr [1, - 1, 0, 1]"
  by (simp_all add: eval_encoders)

lemma spectral_analysis_example:
  "spectral_analysis welch_unit_segments [1, 1, 0, 1] 1 1 =
     Inr [(''nrz_l'',
           \<lparr>frequencies_fft = [0], magnitude = [1], frequencies_psd = [0], psd = [0],
            metrics = \<lparr>dc_component = 50, bandwidth_90 = 1 / 4, spectral_efficiency = 4,
                        peak_frequency = 1 / 4, bandwidth_efficiency = 1 / 4,
                        total_power = 8\<rparr>\<rparr>),
          (''rz'',
           \<lparr>frequencies_fft = [0], magnitude = [0], frequencies_psd = [0], psd = [0],
            metrics = \<lparr>dc_component = 0, bandwidth_90 = 0, spectral_efficiency = 0,
                        peak_frequency = 1 / 4, bandwidth_efficiency = 0,
                        total_power = 0\<rparr>\<rparr>),
          (''manchester'',
           \<lparr>frequencies_fft = [0], magnitude = [1], frequencies_psd = [0], psd = [0],
            metrics = \<lparr>dc_component = 50, bandwidth_90 = 1 / 4, spectral_efficiency = 4,
                        peak_frequency = 1 / 4, bandwidth_efficiency = 1 / 4,
                        total_power = 8\<rparr>\<rparr>),
          (''ami'',
           \<lparr>frequencies_fft = [0], magnitude = [1 / sqrt 5], frequencies_psd = [0],
            psd = [0],
            metrics = \<lparr>dc_component = 50 / 3, bandwidth_90 = 1 / 4, spectral_efficiency = 4,
                        peak_frequency = 1 / 4, bandwidth_efficiency = 1 / 4,
                        total_power = 6\<rparr>\<rparr>)]"
  by (simp add: spectral_analysis_def encoders_example analyse_unit_nrz analyse_unit_zero
      analyse_unit_ami)

subsection \<open>Properties of the encoders\<close>

text \<open>
  C10. For every sequence of integers, binary or not, and every \<open>samples_per_bit \<ge> 1\<close>,
  NRZ-L encoding returns a signal: the block of a bit equal to 1 is all \<open>+1\<close>, the block
  of any other value is all \<open>-1\<close>. Nothing is rejected.
\<close>

theorem nrz_l_total_and_folds:
  assumes "1 \<le> S"
  shows "\<exists>sig. encode_nrz_l bits S = Inr sig \<and> length sig = length bits * nat S \<and>
           (\<forall>i<length bits. \<forall>j<nat S.
              sig ! (i * nat S + j) = (if bits ! i = 1 then 1 else - 1))"
proof -
  let ?sig = "map (\<lambda>x. if x = 1 then 1 else - 1) (concat (map (replicate (nat S)) bits))"
  from assms have "encode_nrz_l bits S = Inr ?sig" by (simp add: encode_nrz_l_eq)
  moreover have "length ?sig = length bits * nat S" by (simp add: length_concat_replicate)
  moreover have "?sig ! (i * nat S + j) = (if bits ! i = 1 then 1 else - 1)"
    if "i < length bits" "j < nat S" for i j
    using that block_in_range [OF that]
    by (simp add: length_concat_replicate nth_concat_replicate)
  ultimately show ?thesis by blast
qed

theorem nrz_l_total_and_folds_witness:
  "(1::int) \<le> 2 \<and> encode_nrz_l [1, 0, 2, - 1] 2 = Inr [1, 1, - 1, - 1, - 1, - 1, - 1, - 1]"
  using nrz_l_total_and_folds [of 2 "[1, 0, 2, - 1]"]
  by (simp add: encode_nrz_l_eq numeral_2_eq_2)

text \<open>
  C6. For a non-empty bit sequence of length \<open>N\<close> and \<open>samples_per_bit = S \<ge> 1\<close>, each of
  the four encoders returns a signal of length exactly \<open>N * S\<close>.
\<close>

theorem encoded_length:
  assumes "bits \<noteq> []" "1 \<le> S"
  shows "(\<exists>sig. encode_nrz_l bits S = Inr sig \<and> length sig = length bits * nat S) \<and>
         (\<exists>sig. encode_rz bits S = Inr sig \<and> length sig = length bits * nat S) \<and>
         (\<exists>sig. encode_manchester bits S = Inr sig \<and> length sig = length bits * nat S) \<and>
         (\<exists>sig. encode_ami bits S = Inr sig \<and> length sig = length bits * nat S)"
  using assms(2)
  by (simp add: encode_nrz_l_eq encode_rz_eq encode_manchester_eq encode_ami_eq
      length_concat_replicate length_rz_loop length_manchester_loop length_ami_loop)

theorem encoded_length_witness:
  "[1, 0, 1 :: int] \<noteq> [] \<and> (1::int) \<le> 3 \<and>
   (\<exists>sig. encode_nrz_l [1, 0, 1] 3 = Inr sig \<and> length sig = 9) \<and>
   (\<exists>sig. encode_rz [1, 0, 1] 3 = Inr sig \<and> length sig = 9) \<and>
   (\<exists>sig. encode_manchester [1, 0, 1] 3 = Inr sig \<and> length sig = 9) \<and>
   (\<exists>sig. encode_ami [1, 0, 1] 3 = Inr sig \<and> length sig = 9)"
  using encoded_length [of "[1, 0, 1]" 3] by simp

text \<open>
  C4 (as amended). For every bit sequence, every \<open>samples_per_bit = S \<ge> 1\<close> and every bit
  \<open>i\<close>, the Manchester block of bit \<open>i\<close> has a first half of \<open>S div 2\<close> samples
  and a second half of \<open>S - S div 2\<close> samples at the opposite level. The two halves sum
  to 0 when \<open>S\<close> is even; when \<open>S\<close> is odd the second half is one sample longer and
  the sum is the level of the second half (\<open>+1\<close> for a bit equal to 1, \<open>-1\<close>
  otherwise).
\<close>

theorem manchester_block_halves:
  assumes "1 \<le> S" "i < length bits"
  shows "\<exists>sig. encode_manchester bits S = Inr sig \<and>
           (let h = nat S div 2;
                block = bit_block sig (nat S) i;
                v = (if bits ! i = 1 then 1 else - 1)
            in take h block = replicate h (- v) \<and>
               drop h block = replicate (nat S - h) v \<and>
               sum_list (take h block) + sum_list (drop h block) = (if even S then 0 else v))"
proof -
  from assms(1) have S0: "0 \<le> S" by simp
  define h where "h = nat S div 2"
  define v :: real where "v = (if bits ! i = 1 then 1 else - 1)"
  from manchester_block [OF S0 assms(2)] obtain sig where
    enc: "encode_manchester bits S = Inr sig" and
    blk: "take (nat S) (drop (i * nat S) sig) = map (\<lambda>j. if j < h then - v else v) [0..<nat S]"
    by (auto simp: h_def v_def cong: if_cong)
  define block where "block = bit_block sig (nat S) i"
  have hS: "h \<le> nat S" by (simp add: h_def)
  have b: "block = map (\<lambda>j. if j < h then - v else v) [0..<nat S]"
    using blk by (simp add: block_def bit_block_def)
  have t: "take h block = replicate h (- v)"
    unfolding b using hS by (auto intro!: nth_equalityI)
  have d: "drop h block = replicate (nat S - h) v"
    unfolding b using hS by (auto intro!: nth_equalityI)
  have s: "real h * (- v) + real (nat S - h) * v = (if even S then 0 else v)"
  proof (cases "even S")
    case True
    then have "even (nat S)" using S0 by (simp add: even_nat_iff)
    then have "nat S - h = h" unfolding h_def by (auto elim: evenE)
    with True show ?thesis by simp
  next
    case False
    then have "odd (nat S)" using S0 by (simp add: even_nat_iff)
    then have "nat S - h = Suc h" unfolding h_def by (auto elim!: oddE)
    with False show ?thesis by (simp add: algebra_simps)
  qed
  have "sum_list (take h block) + sum_list (drop h block) = (if even S then 0 else v)"
    unfolding t d using s by (simp only: sum_list_replicate)
  with t d have "take h block = replicate h (- v) \<and> drop h block = replicate (nat S - h) v \<and>
      sum_list (take h block) + sum_list (drop h block) = (if even S then 0 else v)"
    by blast
  with enc show ?thesis
    unfolding Let_def h_def [symmetric] v_def [symmetric] block_def by blast
qed


theorem manchester_block_halves_witness:
  "(1::int) \<le> 3 \<and> (0::nat) < length [1, 0 :: int] \<and>
   encode_manchester [1, 0] 3 = Inr [- 1, 1, 1, 1, - 1, - 1]"
  using manchester_block_halves [of 3 0 "[1, 0]"] by (simp add: eval_encoders)

text \<open>
  The claim as stated fails at an odd width: one bit 1 with three samples per bit gives
  \<open>[-1, 1, 1]\<close>, whose halves sum to 1.
\<close>

theorem manchester_odd_counterexample:
  "encode_manchester [1] 3 = Inr [- 1, 1, 1] \<and>
   sum_list (take (nat 3 div 2) (bit_block [- 1, 1, 1 :: real] (nat 3) 0)) +
   sum_list (drop (nat 3 div 2) (bit_block [- 1, 1, 1 :: real] (nat 3) 0)) \<noteq> 0"
  by (simp add: eval_encoders bit_block_def)

text \<open>
  C5. For every bit sequence and \<open>samples_per_bit \<ge> 1\<close>, in the AMI signal the block of
  every bit other than 1 is all zeros, the block of the first 1-bit is all \<open>+1\<close>, and for
  two 1-bits with no 1-bit between them the blocks are constant at opposite signs;
  bits \<open>[1, 1]\<close> with two samples per bit give \<open>[1, 1, -1, -1]\<close>.
\<close>

theorem ami_alternates:
  assumes "1 \<le> S"
  shows "(\<exists>sig. encode_ami bits S = Inr sig \<and>
            (\<forall>i<length bits.
               (bits ! i \<noteq> 1 \<longrightarrow> bit_block sig (nat S) i = replicate (nat S) 0) \<and>
               (bits ! i = 1 \<and> (\<forall>k<i. bits ! k \<noteq> 1) \<longrightarrow>
                  bit_block sig (nat S) i = replicate (nat S) 1) \<and>
               (\<forall>k<i. bits ! k = 1 \<and> bits ! i = 1 \<and>
                        (\<forall>m. k < m \<and> m < i \<longrightarrow> bits ! m \<noteq> 1) \<longrightarrow>
                  (\<exists>p. (p = 1 \<or> p = - 1) \<and>
                       bit_block sig (nat S) k = replicate (nat S) p \<and>
                       bit_block sig (nat S) i = replicate (nat S) (- p))))) \<and>
         encode_ami [1, 1] 2 = Inr [1, 1, - 1, - 1]"
proof -
  let ?n = "nat S"
  let ?sig = "fst (ami_loop ?n 0 bits (replicate (length bits * ?n) 0, 1))"
  let ?c = "\<lambda>i. length (filter (\<lambda>b. b = 1) (take i bits))"
  from assms have enc: "encode_ami bits S = Inr ?sig" by (simp add: encode_ami_eq)
  have blk: "bit_block ?sig ?n i =
      replicate ?n (if bits ! i = 1 then real_of_int ((- 1) ^ ?c i) else 0)"
    if "i < length bits" for i
    using that by (rule ami_block)
  have zero: "bit_block ?sig ?n i = replicate ?n 0" if "i < length bits" "bits ! i \<noteq> 1" for i
    using blk [OF that(1)] that(2) by simp
  have first: "bit_block ?sig ?n i = replicate ?n 1"
    if "i < length bits" "bits ! i = 1" "\<forall>k<i. bits ! k \<noteq> 1" for i
  proof -
    from that(1) have "i \<le> length bits" by simp
    from count_ones_none [OF this that(3)] have "?c i = 0" by simp
    with blk [OF that(1)] that(2) show ?thesis by simp
  qed
  have alt: "\<exists>p. (p = 1 \<or> p = - 1) \<and> bit_block ?sig ?n k = replicate ?n p \<and>
                 bit_block ?sig ?n i = replicate ?n (- p)"
    if "i < length bits" "k < i" "bits ! k = 1" "bits ! i = 1"
       "\<forall>m. k < m \<and> m < i \<longrightarrow> bits ! m \<noteq> 1" for i k
  proof -
    from that(1) have il: "i \<le> length bits" by simp
    from that(1,2) have kl: "k < length bits" by simp
    have c: "?c i = Suc (?c k)" by (rule count_ones_next [OF that(2) il that(3) that(5)])
    define p where "p = real_of_int ((- 1) ^ ?c k)"
    have "p = 1 \<or> p = - 1" using neg_one_power_cases [of "?c k"] by (simp add: p_def)
    moreover have "bit_block ?sig ?n k = replicate ?n p"
      using blk [OF kl] that(3) by (simp add: p_def)
    moreover have "bit_block ?sig ?n i = replicate ?n (- p)"
      using blk [OF that(1)] that(4) by (simp add: p_def c)
    ultimately show ?thesis by blast
  qed
  have "\<forall>i<length bits.
      (bits ! i \<noteq> 1 \<longrightarrow> bit_block ?sig ?n i = replicate ?n 0) \<and>
      (bits ! i = 1 \<and> (\<forall>k<i. bits ! k \<noteq> 1) \<longrightarrow> bit_block ?sig ?n i = replicate ?n 1) \<and>
      (\<forall>k<i. bits ! k = 1 \<and> bits ! i = 1 \<and> (\<forall>m. k < m \<and> m < i \<longrightarrow> bits ! m \<noteq> 1) \<longrightarrow>
         (\<exists>p. (p = 1 \<or> p = - 1) \<and> bit_block ?sig ?n k = replicate ?n p \<and>
              bit_block ?sig ?n i = replicate ?n (- p)))"
  proof (intro allI impI conjI)
    fix i assume "i < length bits" "bits ! i \<noteq> 1"
    then show "bit_block ?sig ?n i = replicate ?n 0" by (rule zero)
  next
    fix i assume "i < length bits" "bits ! i = 1 \<and> (\<forall>k<i. bits ! k \<noteq> 1)"
    then show "bit_block ?sig ?n i = replicate ?n 1" using first by simp
  next
    fix i k
    assume "i < length bits" "k < i"
      "bits ! k = 1 \<and> bits ! i = 1 \<and> (\<forall>m. k < m \<and> m < i \<longrightarrow> bits ! m \<noteq> 1)"
    then show "\<exists>p. (p = 1 \<or> p = - 1) \<and> bit_block ?sig ?n k = replicate ?n p \<and>
                 bit_block ?sig ?n i = replicate ?n (- p)"
      using alt [of i k] by simp
  qed
  with enc have "\<exists>sig. encode_ami bits S = Inr sig \<and>
      (\<forall>i<length bits.
      (bits ! i \<noteq> 1 \<longrightarrow> bit_block sig ?n i = replicate ?n 0) \<and>
      (bits ! i = 1 \<and> (\<forall>k<i. bits ! k \<noteq> 1) \<longrightarrow> bit_block sig ?n i = replicate ?n 1) \<and>
      (\<forall>k<i. bits ! k = 1 \<and> bits ! i = 1 \<and> (\<forall>m. k < m \<and> m < i \<longrightarrow> bits ! m \<noteq> 1) \<longrightarrow>
         (\<exists>p. (p = 1 \<or> p = - 1) \<and> bit_block sig ?n k = replicate ?n p \<and>
              bit_block sig ?n i = replicate ?n (- p))))"
    by (intro exI [of _ ?sig] conjI)
  moreover have "encode_ami [1, 1] 2 = Inr [1, 1, - 1, - 1]"
    by (simp add: eval_encoders)
  ultimately show ?thesis by (rule conjI)
qed

theorem ami_alternates_witness:
  "(1::int) \<le> 2 \<and> encode_ami [1, 0, 1] 2 = Inr [1, 1, 0, 0, - 1, - 1]"
  using ami_alternates [of 2 "[1, 0, 1]"] by (simp add: eval_encoders)


subsection \<open>Properties of the handlers\<close>

text \<open>
  C7. For the empty bit sequence both handlers answer with the status-400 failure
  \<open>No bits provided\<close>, whatever the other parameters are: the check comes before any
  encoder or analyser call, so no failure of theirs can show and no result is produced.
\<close>

theorem empty_bits_rejected:
  "encode [] S = Inl (Http400 ''No bits provided'') \<and>
   spectral_analysis W [] S data_rate = Inl (Http400 ''No bits provided'')"
  by (simp add: encode_def spectral_analysis_def)

text \<open>
  C2 (as amended). The encoding handler fails in exactly two cases: the empty bit sequence
  (status 400) and, for a non-empty sequence, a negative \<open>samples_per_bit\<close> (the array
  library raises, status 500). Every other input, whatever its bit values, gets a result
  that holds the four encoders' signals; in particular no well-formed input fails.
\<close>

theorem encode_failure_cases:
  "(bits = [] \<longrightarrow> encode bits S = Inl (Http400 ''No bits provided'')) \<and>
   (bits \<noteq> [] \<and> S < 0 \<longrightarrow> encode bits S = Inl (Http500 ValueError)) \<and>
   (bits \<noteq> [] \<and> 0 \<le> S \<longrightarrow>
      (\<exists>r. encode bits S = Inr r \<and>
           encode_nrz_l bits S = Inr (nrz_l r) \<and> encode_rz bits S = Inr (rz r) \<and>
           encode_manchester bits S = Inr (manchester r) \<and> encode_ami bits S = Inr (ami r)))"
proof (intro conjI impI)
  assume "bits = []"
  then show "encode bits S = Inl (Http400 ''No bits provided'')" by (simp add: encode_def)
next
  assume a: "bits \<noteq> [] \<and> S < 0"
  then have "int (length bits) * S < 0" by (simp add: negative_total)
  with a show "encode bits S = Inl (Http500 ValueError)"
    by (simp add: encode_def np_linspace_def)
next
  assume a: "bits \<noteq> [] \<and> 0 \<le> S"
  then have "\<not> int (length bits) * S < 0" by (simp add: not_less mult_nonneg_nonneg)
  with a show "\<exists>r. encode bits S = Inr r \<and>
           encode_nrz_l bits S = Inr (nrz_l r) \<and> encode_rz bits S = Inr (rz r) \<and>
           encode_manchester bits S = Inr (manchester r) \<and> encode_ami bits S = Inr (ami r)"
    by (simp add: encode_def np_linspace_def np_repeat_def encode_nrz_l_eq encode_rz_eq
        encode_manchester_eq encode_ami_eq)
qed

theorem encode_failure_cases_witness:
  "[1, 0 :: int] \<noteq> [] \<and> (0::int) \<le> 2 \<and> (\<exists>r. encode [1, 0] 2 = Inr r)"
  using encode_failure_cases [of "[1, 0]" 2] by auto

text \<open>
  The claim as stated fails at a bit value that is neither 0 nor 1: the input is encoded,
  not rejected.
\<close>

theorem encode_accepts_non_binary_counterexample:
  "(2::int) \<noteq> 0 \<and> (2::int) \<noteq> 1 \<and>
   encode [2] 1 = Inr \<lparr>time = [0], original = [2], nrz_l = [- 1], rz = [0],
                        manchester = [- 1], ami = [0]\<rparr>"
  by (simp add: encode_def np_linspace_def eval_encoders)

text \<open>
  C9. For every signal of fewer than 4 samples the segment length
  \<open>min 256 (length div 4)\<close> is 0 and the PSD operation fails; hence the spectral-analysis
  handler fails (status 500) for every non-empty bit sequence and \<open>samples_per_bit \<ge> 1\<close>
  with fewer than 4 samples in total, such as one bit with at most three samples.
\<close>

theorem psd_fails_below_four_samples:
  "(length sig < 4 \<longrightarrow>
      min 256 (length sig div 4) = 0 \<and> calculate_psd W sig fs = Inl ValueError) \<and>
   (bits \<noteq> [] \<and> 1 \<le> S \<and> length bits * nat S < 4 \<longrightarrow>
      (\<exists>e. spectral_analysis W bits S data_rate = Inl (Http500 e)))"
proof (intro conjI impI)
  assume "length sig < 4"
  then show "min 256 (length sig div 4) = 0" by simp
next
  assume "length sig < 4"
  then show "calculate_psd W sig fs = Inl ValueError" by (rule calculate_psd_short)
next
  assume a: "bits \<noteq> [] \<and> 1 \<le> S \<and> length bits * nat S < 4"
  then have S0: "0 \<le> S" by simp
  let ?nrz = "map (\<lambda>x. if x = 1 then 1 else - 1) (concat (map (replicate (nat S)) bits))"
  have "length (map real_of_int ?nrz) < 4"
    using a by (simp add: length_concat_replicate)
  from analyse_signal_short [OF this] obtain e where
    "analyse_signal W (map real_of_int ?nrz) data_rate (real_of_int S * data_rate) = Inl e"
    by blast
  with a S0 have "spectral_analysis W bits S data_rate = Inl (Http500 e)"
    by (simp add: spectral_analysis_def encode_nrz_l_eq encode_rz_eq encode_manchester_eq
        encode_ami_eq)
  then show "\<exists>e. spectral_analysis W bits S data_rate = Inl (Http500 e)" ..
qed

theorem psd_fails_below_four_samples_witness:
  "length [1, - 1, 1 :: real] < 4 \<and> calculate_psd welch_unit_segments [1, - 1, 1] 3 = Inl ValueError \<and>
   [1 :: int] \<noteq> [] \<and> (1::int) \<le> 3 \<and> length [1 :: int] * nat 3 < 4 \<and>
   (\<exists>e. spectral_analysis welch_unit_segments [1] 3 1 = Inl (Http500 e))"
  using psd_fails_below_four_samples [of "[1, - 1, 1]" welch_unit_segments 3 "[1]" 3 1]
  by simp


subsection \<open>Properties of the spectral operations\<close>








end
